theory Spec2Isabelle
  imports Main "HOL-Library.Multiset"
begin

unbundle bit_operations_syntax

section \<open>based.py: guessing the load base of a raw image\<close>

text \<open>
  A shallow embedding of \<^verbatim>\<open>based.py\<close>. Python \<^verbatim>\<open>bytes\<close> are lists of
  8-bit characters, Python integers are \<^typ>\<open>int\<close>, the binary file object is a record
  of its content and its read position, exceptions are values of \<open>error\<close>, and the
  \<^verbatim>\<open>while True\<close> loop of \<^verbatim>\<open>chunkify\<close> is a partial function whose value
  \<open>None\<close> means that the loop never ends.
\<close>

subsection \<open>Data\<close>

type_synonym bytes = "char list"

datatype error = ValueError | IndexError | OSError | UsageError

text \<open>The two byte orders that \<^verbatim>\<open>--endian\<close> admits.\<close>

datatype endian = Little | Big

record stream =
  content :: bytes
  position :: nat

text \<open>A string found in the image: its file offset and its bytes.\<close>

type_synonym cstring = "int \<times> bytes"

text \<open>The dictionary \<^verbatim>\<open>M\<close>: masked offset to the strings of that bucket.\<close>

type_synonym index = "int \<rightharpoonup> cstring list"

text \<open>
  A \<^verbatim>\<open>collections.Counter\<close>: keys in insertion order, each with its count.
\<close>

type_synonym counter = "(int \<times> int) list"

subsection \<open>The binary stream\<close>

definition seek :: "stream \<Rightarrow> nat \<Rightarrow> stream" where
  "seek st p = st\<lparr>position := p\<rparr>"

text \<open>
  \<^verbatim>\<open>stream.read(n)\<close> of a buffered binary file: \<open>n = -1\<close> reads to the end,
  a smaller \<open>n\<close> is a \<^verbatim>\<open>ValueError\<close>, and at the end of the file the result is
  empty.
\<close>

definition read :: "stream \<Rightarrow> int \<Rightarrow> error + (bytes \<times> stream)" where
  "read st n =
     (if n < - 1 then Inl ValueError
      else let rest = drop (position st) (content st);
               d = (if n = - 1 then rest else take (nat n) rest)
           in Inr (d, st\<lparr>position := position st + length d\<rparr>))"

subsection \<open>chunkify\<close>

text \<open>\<^verbatim>\<open>int.from_bytes(d, byteorder=endian)\<close>, unsigned.\<close>

fun from_bytes_little :: "bytes \<Rightarrow> int" where
  "from_bytes_little [] = 0"
| "from_bytes_little (b # bs) = of_char b + 256 * from_bytes_little bs"

definition from_bytes :: "bytes \<Rightarrow> endian \<Rightarrow> int" where
  "from_bytes d endian =
     (case endian of Little \<Rightarrow> from_bytes_little d | Big \<Rightarrow> from_bytes_little (rev d))"

text \<open>
  The generator, as the list of all the values it yields; \<open>None\<close> when the loop
  never reaches its \<^verbatim>\<open>break\<close>.
\<close>

partial_function (option) chunkify :: "stream \<Rightarrow> int \<Rightarrow> endian \<Rightarrow> (error + int list) option" where
  "chunkify st pointer_size endian =
     (case read st pointer_size of
        Inl e \<Rightarrow> Some (Inl e)
      | Inr (d, st') \<Rightarrow>
          if int (length d) < pointer_size then Some (Inr [])
          else Option.bind (chunkify st' pointer_size endian)
                 (\<lambda>r. Some (case r of Inl e \<Rightarrow> Inl e
                                    | Inr vals \<Rightarrow> Inr (from_bytes d endian # vals))))"

declare chunkify.simps [code]

subsection \<open>iter_cstrings_raw\<close>

text \<open>
  \<^verbatim>\<open>data.split(delimiter)\<close> for a non-empty delimiter: the occurrences of the
  delimiter are found from left to right, without overlap.
\<close>

function bytes_split :: "bytes \<Rightarrow> bytes \<Rightarrow> bytes list" where
  "bytes_split sep [] = [[]]"
| "bytes_split sep (x # xs) =
     (if sep \<noteq> [] \<and> take (length sep) (x # xs) = sep
      then [] # bytes_split sep (drop (length sep) (x # xs))
      else (case bytes_split sep xs of
              [] \<Rightarrow> [[x]]
            | r # rs \<Rightarrow> (x # r) # rs))"
  by pat_completeness auto
termination
  by (relation "measure (\<lambda>(sep, xs). length xs)") auto

text \<open>The \<^verbatim>\<open>for sin in ...: yield (pos, sin); pos += ...\<close> loop.\<close>

fun raw_loop :: "int \<Rightarrow> bytes \<Rightarrow> bytes list \<Rightarrow> cstring list" where
  "raw_loop pos delimiter [] = []"
| "raw_loop pos delimiter (sin # rest) =
     (pos, sin) # raw_loop (pos + int (length sin) + int (length delimiter)) delimiter rest"

definition iter_cstrings_raw :: "stream \<Rightarrow> bytes \<Rightarrow> error + (cstring list \<times> stream)" where
  "iter_cstrings_raw st delimiter =
     (case read (seek st 0) (- 1) of
        Inl e \<Rightarrow> Inl e
      | Inr (data, st') \<Rightarrow>
          if delimiter = [] then Inl ValueError
          else Inr (raw_loop 0 delimiter (bytes_split delimiter data), st'))"

subsection \<open>iter_cstrings\<close>

text \<open>\<^verbatim>\<open>string.printable\<close>, as Python's \<^verbatim>\<open>string\<close> module builds it.\<close>

definition digits :: bytes where
  "digits = ''0123456789''"

definition ascii_lowercase :: bytes where
  "ascii_lowercase = ''abcdefghijklmnopqrstuvwxyz''"

definition ascii_uppercase :: bytes where
  "ascii_uppercase = ''ABCDEFGHIJKLMNOPQRSTUVWXYZ''"

definition ascii_letters :: bytes where
  "ascii_letters = ascii_lowercase @ ascii_uppercase"

definition punctuation :: bytes where
  "punctuation =
     [CHR 0x21, CHR 0x22, CHR 0x23, CHR 0x24, CHR 0x25, CHR 0x26, CHR 0x27, CHR 0x28,
      CHR 0x29, CHR 0x2A, CHR 0x2B, CHR 0x2C, CHR 0x2D, CHR 0x2E, CHR 0x2F, CHR 0x3A,
      CHR 0x3B, CHR 0x3C, CHR 0x3D, CHR 0x3E, CHR 0x3F, CHR 0x40, CHR 0x5B, CHR 0x5C,
      CHR 0x5D, CHR 0x5E, CHR 0x5F, CHR 0x60, CHR 0x7B, CHR 0x7C, CHR 0x7D, CHR 0x7E]"

definition whitespace :: bytes where
  "whitespace = [CHR 0x20, CHR 0x09, CHR 0x0A, CHR 0x0D, CHR 0x0B, CHR 0x0C]"

definition printable :: bytes where
  "printable = digits @ ascii_letters @ punctuation @ whitespace"

definition charset :: bytes where
  "charset = printable"

text \<open>The filtering loop with its two \<^verbatim>\<open>continue\<close> statements.\<close>

fun cstrings_loop :: "int \<Rightarrow> cstring list \<Rightarrow> cstring list" where
  "cstrings_loop threshold [] = []"
| "cstrings_loop threshold (s # rest) =
     (if int (length (snd s)) < threshold then cstrings_loop threshold rest
      else if list_ex (\<lambda>c. c \<notin> set charset) (snd s) then cstrings_loop threshold rest
      else s # cstrings_loop threshold rest)"

definition iter_cstrings :: "stream \<Rightarrow> int \<Rightarrow> error + (cstring list \<times> stream)" where
  "iter_cstrings st threshold =
     (case iter_cstrings_raw st [CHR 0x00] of
        Inl e \<Rightarrow> Inl e
      | Inr (runs, st') \<Rightarrow> Inr (cstrings_loop threshold runs, st'))"

subsection \<open>scan_file\<close>

text \<open>\<^verbatim>\<open>1 << n\<close> raises \<^verbatim>\<open>ValueError\<close> for a negative shift count.\<close>

definition make_mask :: "int \<Rightarrow> error + int" where
  "make_mask n = (if n < 0 then Inl ValueError else Inr (push_bit (nat n) 1 - 1))"

text \<open>The first loop: every string is appended to the bucket of its masked offset.\<close>

fun index_loop :: "int \<Rightarrow> cstring list \<Rightarrow> index \<Rightarrow> index" where
  "index_loop MASK [] M = M"
| "index_loop MASK (s # rest) M =
     (let masked_offset = fst s AND MASK;
          M1 = (if M masked_offset = None then M(masked_offset \<mapsto> []) else M);
          bucket = (case M1 masked_offset of None \<Rightarrow> [] | Some b \<Rightarrow> b)
      in index_loop MASK rest (M1(masked_offset \<mapsto> bucket @ [s])))"

text \<open>\<^verbatim>\<open>c[key]\<close> of a Counter is 0 for a missing key.\<close>

definition counter_get :: "counter \<Rightarrow> int \<Rightarrow> int" where
  "counter_get c key = (case map_of c key of None \<Rightarrow> 0 | Some v \<Rightarrow> v)"

text \<open>Storing a count keeps the place of a key that is present and appends a new one.\<close>

fun counter_set :: "counter \<Rightarrow> int \<Rightarrow> int \<Rightarrow> counter" where
  "counter_set [] key v = [(key, v)]"
| "counter_set (p # ps) key v =
     (if fst p = key then (key, v) # ps else p # counter_set ps key v)"

text \<open>\<^verbatim>\<open>c[key] += n\<close>.\<close>

definition counter_add :: "counter \<Rightarrow> int \<Rightarrow> int \<Rightarrow> counter" where
  "counter_add c key n = counter_set c key (counter_get c key + n)"

text \<open>
  The inner loop over the bucket \<^verbatim>\<open>M[lo]\<close>; \<open>n\<close> is \<^verbatim>\<open>len(M[lo])\<close>, the amount
  added for every string of the bucket whose base is not negative.
\<close>

fun vote_bucket :: "int \<Rightarrow> int \<Rightarrow> cstring list \<Rightarrow> counter \<Rightarrow> counter" where
  "vote_bucket chk n [] c = c"
| "vote_bucket chk n (s # rest) c =
     (let base = chk - fst s
      in if base < 0 then vote_bucket chk n rest c
         else vote_bucket chk n rest (counter_add c base n))"

text \<open>The body of the second loop, for one pointer word.\<close>

definition vote_chunk :: "index \<Rightarrow> int \<Rightarrow> counter \<Rightarrow> int \<Rightarrow> counter" where
  "vote_chunk M MASK c chk =
     (let lo = chk AND MASK
      in case M lo of
           None \<Rightarrow> c
         | Some bucket \<Rightarrow> vote_bucket chk (int (length bucket)) bucket c)"

definition scan_file :: "stream \<Rightarrow> endian \<Rightarrow> int \<Rightarrow> int \<Rightarrow> (error + counter) option" where
  "scan_file st endian pointer_size mask_bits =
     (case make_mask mask_bits of
        Inl e \<Rightarrow> Some (Inl e)
      | Inr MASK \<Rightarrow>
          (case iter_cstrings st 10 of
             Inl e \<Rightarrow> Some (Inl e)
           | Inr (strs, st1) \<Rightarrow>
               let M = index_loop MASK strs Map.empty;
                   st2 = seek st1 0
               in (case chunkify st2 pointer_size endian of
                     None \<Rightarrow> None
                   | Some (Inl e) \<Rightarrow> Some (Inl e)
                   | Some (Inr chunks) \<Rightarrow> Some (Inr (foldl (vote_chunk M MASK) [] chunks)))))"

subsection \<open>main\<close>

text \<open>
  \<^verbatim>\<open>most_common(1)\<close> is the first item of largest count in insertion order, or the
  empty list; \<^verbatim>\<open>most_common(n)\<close> is the first \<open>n\<close> items of the stable sort by
  descending count.
\<close>

fun first_max :: "(int \<times> int) \<Rightarrow> counter \<Rightarrow> (int \<times> int)" where
  "first_max best [] = best"
| "first_max best (p # ps) = (if snd best < snd p then first_max p ps else first_max best ps)"

definition most_common :: "nat \<Rightarrow> counter \<Rightarrow> counter" where
  "most_common n c =
     (if n = 1 then (case c of [] \<Rightarrow> [] | p # ps \<Rightarrow> [first_max p ps])
      else take n (sort_key (\<lambda>p. - snd p) c))"

text \<open>\<^verbatim>\<open>result.most_common(1)[0][0]\<close>: indexing the empty list raises.\<close>

definition best_result :: "counter \<Rightarrow> error + int" where
  "best_result result =
     (case most_common 1 result of [] \<Rightarrow> Inl IndexError | p # _ \<Rightarrow> Inr (fst p))"

record args =
  arg_file :: string
  arg_endian :: endian
  arg_pointer_size :: int
  arg_mask :: int
  verbose :: bool

text \<open>
  What the process prints: the best base, or with \<^verbatim>\<open>--verbose\<close> the rows of
  \<^verbatim>\<open>most_common(10)\<close> (the layout of the columns is not modelled).
\<close>

datatype printed = Best int | Rows "(int \<times> int) list"

text \<open>
  The file system is a map from paths to contents; \<^verbatim>\<open>argparse\<close> rejects a pointer
  size outside 4 and 8 before anything is opened.
\<close>

definition main :: "(string \<rightharpoonup> bytes) \<Rightarrow> args \<Rightarrow> (error + printed) option" where
  "main fs a =
     (if arg_pointer_size a \<notin> {4, 8} then Some (Inl UsageError)
      else case fs (arg_file a) of
             None \<Rightarrow> Some (Inl OSError)
           | Some data \<Rightarrow>
               (case scan_file \<lparr>content = data, position = 0\<rparr>
                       (arg_endian a) (arg_pointer_size a) (arg_mask a) of
                  None \<Rightarrow> None
                | Some (Inl e) \<Rightarrow> Some (Inl e)
                | Some (Inr result) \<Rightarrow>
                    (case best_result result of
                       Inl e \<Rightarrow> Some (Inl e)
                     | Inr b \<Rightarrow>
                         Some (Inr (if verbose a then Rows (most_common 10 result)
                                    else Best b)))))"

section \<open>Auxiliary notions\<close>

text \<open>The bytes of a stream cut into consecutive windows of \<open>n\<close> bytes; a shorter rest is dropped.\<close>

function windows :: "nat \<Rightarrow> bytes \<Rightarrow> bytes list" where
  "windows n xs = (if n = 0 \<or> length xs < n then [] else take n xs # windows n (drop n xs))"
  by pat_completeness auto
termination
  by (relation "measure (\<lambda>(n, xs). length xs)") auto

declare windows.simps [simp del]

text \<open>The inverse of splitting: the runs with the delimiter between them.\<close>

fun join :: "bytes \<Rightarrow> bytes list \<Rightarrow> bytes" where
  "join sep [] = []"
| "join sep [r] = r"
| "join sep (r # r' # rs) = r @ sep @ join sep (r' # rs)"

text \<open>The offsets of \<^verbatim>\<open>iter_cstrings_raw\<close> as natural numbers.\<close>

fun offsets :: "nat \<Rightarrow> nat \<Rightarrow> bytes list \<Rightarrow> (nat \<times> bytes) list" where
  "offsets p k [] = []"
| "offsets p k (r # rs) = (p, r) # offsets (p + length r + k) k rs"

text \<open>
  The votes that one pointer word \<open>chk\<close> gives to the base \<open>b\<close>: the size of the
  bucket it selects, once for every string of the bucket at distance \<open>b\<close> below it.
\<close>

definition contribution :: "index \<Rightarrow> int \<Rightarrow> int \<Rightarrow> int \<Rightarrow> int" where
  "contribution M MASK chk b =
     (case M (chk AND MASK) of
        None \<Rightarrow> 0
      | Some bucket \<Rightarrow>
          int (length bucket) * int (length (filter (\<lambda>s. chk - fst s = b \<and> 0 \<le> b) bucket)))"

text \<open>Two invariants of the vote table.\<close>

definition positive_counts :: "counter \<Rightarrow> bool" where
  "positive_counts c = list_all (\<lambda>p. 0 < snd p) c"

definition nonneg_keys :: "counter \<Rightarrow> bool" where
  "nonneg_keys c = list_all (\<lambda>p. 0 \<le> fst p) c"

text \<open>
  The printable ASCII characters in the usual sense, space to tilde; \<^verbatim>\<open>string.printable\<close>
  is compared with them below.
\<close>

definition printable_ascii :: "char \<Rightarrow> bool" where
  "printable_ascii c = (0x20 \<le> (of_char c :: nat) \<and> (of_char c :: nat) \<le> 0x7E)"

text \<open>The pure content of the three passes over an image.\<close>

definition runs_of :: "bytes \<Rightarrow> bytes \<Rightarrow> cstring list" where
  "runs_of data delimiter = raw_loop 0 delimiter (bytes_split delimiter data)"

definition cstrings_of :: "bytes \<Rightarrow> int \<Rightarrow> cstring list" where
  "cstrings_of data threshold = cstrings_loop threshold (runs_of data [CHR 0x00])"

definition pointer_words :: "bytes \<Rightarrow> nat \<Rightarrow> endian \<Rightarrow> int list" where
  "pointer_words data n endian = map (\<lambda>w. from_bytes w endian) (windows n data)"

definition votes :: "cstring list \<Rightarrow> int \<Rightarrow> int list \<Rightarrow> counter" where
  "votes strs MASK chunks = foldl (vote_chunk (index_loop MASK strs Map.empty) MASK) [] chunks"

definition open_image :: "bytes \<Rightarrow> stream" where
  "open_image data = \<lparr>content = data, position = 0\<rparr>"

text \<open>\<^verbatim>\<open>Counter.total()\<close>: the sum of all counts.\<close>

definition counter_total :: "counter \<Rightarrow> int" where
  "counter_total c = sum_list (map snd c)"

text \<open>
  The number of (pointer, string) pairs that match under the mask and have the base
  \<open>b\<close>: the count that \<open>b\<close> would have if every pair gave one vote.
\<close>

definition pair_count :: "cstring list \<Rightarrow> int \<Rightarrow> int list \<Rightarrow> int \<Rightarrow> int" where
  "pair_count strs MASK words b =
     int (length (filter (\<lambda>(w, s). w AND MASK = fst s AND MASK \<and> w - fst s = b \<and> 0 \<le> b)
                         (List.product words strs)))"

text \<open>
  A string is faithful to the image: its offset and length lie inside the image, its
  bytes are the bytes of the image at that offset, and its offset is 0 or the position
  right after an occurrence of the delimiter.
\<close>

definition faithful :: "bytes \<Rightarrow> bytes \<Rightarrow> cstring \<Rightarrow> bool" where
  "faithful data delimiter s \<longleftrightarrow>
     0 \<le> fst s
     \<and> fst s + int (length (snd s)) \<le> int (length data)
     \<and> take (length (snd s)) (drop (nat (fst s)) data) = snd s
     \<and> (fst s = 0
        \<or> (int (length delimiter) \<le> fst s
           \<and> take (length delimiter) (drop (nat (fst s) - length delimiter) data) = delimiter))"

section \<open>Concrete images\<close>

text \<open>
  The 16-byte image of the end-to-end example: a zero byte, \<^verbatim>\<open>HELLOWORLD\<close> at
  offset 1, a zero byte, and the little-endian word \<open>0x1001\<close>.
\<close>

definition hello_image :: bytes where
  "hello_image =
     CHR 0x00 # ''HELLOWORLD'' @ [CHR 0x00] @ [CHR 0x01, CHR 0x10, CHR 0x00, CHR 0x00]"

text \<open>
  Two strings of 15 bytes at the offsets 0 and 16, which share a bucket under a mask of
  4 bits, and the little-endian word \<open>0x100\<close>.
\<close>

definition bucket_image :: bytes where
  "bucket_image =
     ''AAAAAAAAAAAAAAA'' @ [CHR 0x00] @ ''BBBBBBBBBBBBBBB'' @ [CHR 0x00]
       @ [CHR 0x00, CHR 0x01, CHR 0x00, CHR 0x00]"

text \<open>
  The image of the end-to-end example with the word \<open>0x1801\<close>: the string at offset 1
  loaded at the base \<open>0x1800\<close>, which is not a multiple of \<open>2 ^ 12\<close>.
\<close>

definition unaligned_image :: bytes where
  "unaligned_image =
     CHR 0x00 # ''HELLOWORLD'' @ [CHR 0x00] @ [CHR 0x01, CHR 0x18, CHR 0x00, CHR 0x00]"

text \<open>A string of ten letters and a line feed, with no zero byte.\<close>

definition newline_string :: bytes where
  "newline_string = ''HELLOWORLD'' @ [CHR 0x0A]"

text \<open>Twelve line feeds.\<close>

definition newline_image :: bytes where
  "newline_image = replicate 12 (CHR 0x0A)"

text \<open>Twelve line feeds and four zero bytes: 16 bytes, none of them printable.\<close>

definition line_feed_image :: bytes where
  "line_feed_image = replicate 12 (CHR 0x0A) @ replicate 4 (CHR 0x00)"

section \<open>Lemmas\<close>

subsection \<open>Reading and chunking\<close>

lemma read_all: "read (seek st 0) (- 1) = Inr (content st, st\<lparr>position := length (content st)\<rparr>)"
  by (simp add: read_def seek_def Let_def)

lemma chunkify_windows:
  assumes "0 < pointer_size"
  shows "chunkify st pointer_size endian =
         Some (Inr (map (\<lambda>w. from_bytes w endian)
                      (windows (nat pointer_size) (drop (position st) (content st)))))"
proof (induction "length (content st) - position st" arbitrary: st rule: less_induct)
  case less
  let ?rest = "drop (position st) (content st)"
  let ?n = "nat pointer_size"
  have n: "0 < ?n" "int ?n = pointer_size" using assms by auto
  show ?case
  proof (cases "length ?rest < ?n")
    case True
    then have "int (length (take ?n ?rest)) < pointer_size" using n by auto
    moreover have "windows ?n ?rest = []" using True by (simp add: windows.simps)
    moreover have "read st pointer_size =
        Inr (take ?n ?rest, st\<lparr>position := position st + length (take ?n ?rest)\<rparr>)"
      using assms by (simp add: read_def Let_def)
    ultimately show ?thesis
      by (subst chunkify.simps) (simp del: length_take)
  next
    case False
    define st' where "st' = st\<lparr>position := position st + ?n\<rparr>"
    have len: "length (take ?n ?rest) = ?n" using False by auto
    have rd: "read st pointer_size = Inr (take ?n ?rest, st')"
      using assms len by (simp add: read_def Let_def st'_def)
    have "length (content st') - position st' < length (content st) - position st"
      using False n by (simp add: st'_def)
    from less[OF this]
    have ih: "chunkify st' pointer_size endian =
              Some (Inr (map (\<lambda>w. from_bytes w endian) (windows ?n (drop ?n ?rest))))"
      by (simp add: st'_def add.commute)
    have w: "windows ?n ?rest = take ?n ?rest # windows ?n (drop ?n ?rest)"
      using False n by (subst windows.simps) simp
    show ?thesis
      using rd ih len n by (subst chunkify.simps) (simp add: w)
  qed
qed

lemma windows_nth:
  assumes "0 < n"
  shows "windows n xs = map (\<lambda>i. take n (drop (i * n) xs)) [0..<length xs div n]"
proof (induction "length xs" arbitrary: xs rule: less_induct)
  case less
  show ?case
  proof (cases "length xs < n")
    case True
    then show ?thesis by (simp add: windows.simps)
  next
    case False
    then have d: "length xs div n = Suc (length (drop n xs) div n)"
      using assms by (simp add: le_div_geq)
    have "length (drop n xs) < length xs" using False assms by simp
    from less[OF this]
    have ih: "windows n (drop n xs) = map (\<lambda>i. take n (drop (i * n) (drop n xs))) [0..<length (drop n xs) div n]" .
    have "windows n xs = take n xs # windows n (drop n xs)"
      using False assms by (subst windows.simps) simp
    also have "\<dots> = map (\<lambda>i. take n (drop (i * n) xs)) [0..<length xs div n]"
      unfolding d ih
      by (simp add: upt_conv_Cons map_Suc_upt[symmetric] add.commute del: upt_Suc)
    finally show ?thesis .
  qed
qed

lemma of_char_bounds: "0 \<le> (of_char c :: int) \<and> (of_char c :: int) < 256"
proof -
  have "(of_char c :: nat) mod 256 < 256" by (rule mod_less_divisor) simp
  then have "(of_char c :: nat) < 256" by (simp only: of_char_mod_256)
  moreover have "(of_char c :: int) = int (of_char c)" by (simp only: of_nat_of_char)
  ultimately show ?thesis by simp
qed

lemma from_bytes_little_bounds: "0 \<le> from_bytes_little d \<and> from_bytes_little d < 256 ^ length d"
proof (induction d)
  case Nil
  then show ?case by simp
next
  case (Cons b d)
  have "of_char b + 256 * from_bytes_little d \<le> 255 + 256 * (256 ^ length d - 1)"
    using Cons of_char_bounds[of b] by (simp add: add_mono)
  then show ?case using Cons of_char_bounds[of b] by simp
qed

lemma from_bytes_bounds: "0 \<le> from_bytes d endian \<and> from_bytes d endian < 256 ^ length d"
  using from_bytes_little_bounds[of d] from_bytes_little_bounds[of "rev d"]
  by (cases endian) (simp_all add: from_bytes_def)

subsection \<open>Splitting\<close>

lemma bytes_split_nonempty: "bytes_split sep xs \<noteq> []"
  by (induction sep xs rule: bytes_split.induct) (auto split: list.splits)

lemma join_Cons_nonempty: "rs \<noteq> [] \<Longrightarrow> join sep (r # rs) = r @ sep @ join sep rs"
  by (cases rs) auto

lemma join_bytes_split: "sep \<noteq> [] \<Longrightarrow> join sep (bytes_split sep xs) = xs"
proof (induction sep xs rule: bytes_split.induct)
  case (1 sep)
  then show ?case by simp
next
  case (2 sep x xs)
  show ?case
  proof (cases "take (length sep) (x # xs) = sep")
    case True
    have "join sep (bytes_split sep (x # xs)) = sep @ join sep (bytes_split sep (drop (length sep) (x # xs)))"
      using True "2.prems" by (simp add: join_Cons_nonempty bytes_split_nonempty)
    also have "\<dots> = sep @ drop (length sep) (x # xs)"
      using "2.IH"(1) True "2.prems" by simp
    also have "\<dots> = x # xs"
      using True by (metis append_take_drop_id)
    finally show ?thesis .
  next
    case False
    obtain r rs where rs: "bytes_split sep xs = r # rs"
      using bytes_split_nonempty by (cases "bytes_split sep xs") auto
    have ih: "join sep (r # rs) = xs"
      using "2.IH"(2) False "2.prems" rs by simp
    have "join sep ((x # r) # rs) = x # join sep (r # rs)"
      by (cases rs) auto
    then show ?thesis using False rs ih by simp
  qed
qed

lemma set_run_subset: "r \<in> set rs \<Longrightarrow> set r \<subseteq> set (join sep rs)"
  by (induction sep rs rule: join.induct) auto

lemma raw_loop_offsets:
  "raw_loop (int p) delimiter rs = map (\<lambda>(q, r). (int q, r)) (offsets p (length delimiter) rs)"
proof (induction rs arbitrary: p)
  case Nil
  then show ?case by simp
next
  case (Cons r rs)
  have "int p + int (length r) + int (length delimiter) = int (p + length r + length delimiter)"
    by simp
  then show ?case using Cons[of "p + length r + length delimiter"] by simp
qed

lemma offsets_lower: "(q, r) \<in> set (offsets p k rs) \<Longrightarrow> p \<le> q"
proof (induction rs arbitrary: p)
  case Nil
  then show ?case by simp
next
  case (Cons a rs)
  then show ?case by (fastforce dest: Cons.IH)
qed

lemma offsets_ascending: "0 < k \<Longrightarrow> sorted_wrt (<) (map fst (offsets p k rs))"
proof (induction rs arbitrary: p)
  case Nil
  then show ?case by simp
next
  case (Cons a rs)
  have "\<And>q r. (q, r) \<in> set (offsets (p + length a + k) k rs) \<Longrightarrow> p < q"
    using offsets_lower Cons.prems by fastforce
  then show ?case using Cons by auto
qed

lemma offsets_faithful:
  assumes "(q, r) \<in> set (offsets p (length sep) rs)"
  shows "q - p + length r \<le> length (join sep rs)
         \<and> take (length r) (drop (q - p) (join sep rs)) = r
         \<and> (q = p \<or> (p + length sep \<le> q
                     \<and> take (length sep) (drop (q - p - length sep) (join sep rs)) = sep))"
  using assms
proof (induction sep rs arbitrary: p rule: join.induct)
  case (1 sep)
  then show ?case by simp
next
  case (2 sep a)
  then show ?case by simp
next
  case (3 sep a b rs)
  let ?p' = "p + length a + length sep"
  let ?X' = "join sep (b # rs)"
  show ?case
  proof (cases "(q, r) = (p, a)")
    case True
    then show ?thesis by simp
  next
    case False
    then have mem: "(q, r) \<in> set (offsets ?p' (length sep) (b # rs))"
      using "3.prems" by auto
    have ge: "?p' \<le> q" using offsets_lower[OF mem] .
    have ih: "q - ?p' + length r \<le> length ?X'
         \<and> take (length r) (drop (q - ?p') ?X') = r
         \<and> (q = ?p' \<or> (?p' + length sep \<le> q
                     \<and> take (length sep) (drop (q - ?p' - length sep) ?X') = sep))"
      using "3.IH"[OF mem] .
    have d1: "drop (q - p) (a @ sep @ ?X') = drop (q - ?p') ?X'"
      using ge by simp
    have ih1: "q - ?p' + length r \<le> length ?X'" using ih by blast
    have l: "length (join sep (a # b # rs)) = length a + length sep + length ?X'"
      by simp
    have c1: "q - p + length r \<le> length (join sep (a # b # rs))"
      unfolding l using ih1 ge by arith
    have c2: "take (length r) (drop (q - p) (join sep (a # b # rs))) = r"
      using ih d1 by simp
    have c3: "p + length sep \<le> q \<and> take (length sep) (drop (q - p - length sep) (join sep (a # b # rs))) = sep"
    proof (cases "q = ?p'")
      case True
      then show ?thesis by simp
    next
      case False
      then have h: "?p' + length sep \<le> q" "take (length sep) (drop (q - ?p' - length sep) ?X') = sep"
        using ih by auto
      have "drop (q - p - length sep) (a @ sep @ ?X') = drop (q - ?p' - length sep) ?X'"
        using h(1) by (simp add: ac_simps)
      then show ?thesis using h by simp
    qed
    show ?thesis using c1 c2 c3 by blast
  qed
qed

lemma cstrings_loop_filter:
  "cstrings_loop threshold runs =
   filter (\<lambda>s. threshold \<le> int (length (snd s)) \<and> (\<forall>c \<in> set (snd s). c \<in> set charset)) runs"
  by (induction runs) (auto simp: list_ex_iff)

lemma iter_cstrings_raw_eq:
  "delimiter \<noteq> [] \<Longrightarrow>
   iter_cstrings_raw st delimiter =
   Inr (raw_loop 0 delimiter (bytes_split delimiter (content st)),
        st\<lparr>position := length (content st)\<rparr>)"
  by (simp add: iter_cstrings_raw_def read_def seek_def Let_def)

subsection \<open>Voting\<close>

lemma map_of_counter_set: "map_of (counter_set c k v) = (map_of c)(k \<mapsto> v)"
  by (induction c) (auto simp: fun_eq_iff)

lemma counter_get_add:
  "counter_get (counter_add c k n) b = counter_get c b + (if b = k then n else 0)"
  by (simp add: counter_get_def counter_add_def map_of_counter_set)

lemma set_counter_set: "set (counter_set c k v) \<subseteq> insert (k, v) (set c)"
  by (induction c) auto

lemma vote_bucket_get:
  "counter_get (vote_bucket chk n bucket c) b =
   counter_get c b + n * int (length (filter (\<lambda>s. chk - fst s = b \<and> 0 \<le> b) bucket))"
proof (induction bucket arbitrary: c)
  case Nil
  then show ?case by simp
next
  case (Cons s bucket)
  show ?case
  proof (cases "chk - fst s < 0")
    case True
    then show ?thesis using Cons[of c] by auto
  next
    case False
    then show ?thesis
      using Cons[of "counter_add c (chk - fst s) n"]
      by (auto simp: counter_get_add Let_def algebra_simps)
  qed
qed

lemma vote_chunk_get:
  "counter_get (vote_chunk M MASK c chk) b = counter_get c b + contribution M MASK chk b"
  by (simp add: vote_chunk_def contribution_def vote_bucket_get Let_def split: option.splits)

lemma contribution_nonneg: "0 \<le> contribution M MASK chk b"
  by (simp add: contribution_def split: option.splits)

lemma vote_all_get:
  "counter_get (foldl (vote_chunk M MASK) c chunks) b =
   counter_get c b + (\<Sum>chk\<leftarrow>chunks. contribution M MASK chk b)"
  by (induction chunks arbitrary: c) (simp_all add: vote_chunk_get add.assoc)

lemma counter_get_nonneg: "positive_counts c \<Longrightarrow> 0 \<le> counter_get c b"
  by (auto simp: positive_counts_def counter_get_def list_all_iff split: option.splits dest!: map_of_SomeD)

lemma positive_counter_add:
  "positive_counts c \<Longrightarrow> 0 < n \<Longrightarrow> positive_counts (counter_add c k n)"
proof -
  assume a: "positive_counts c" "0 < n"
  then have "0 < counter_get c k + n" using counter_get_nonneg[OF a(1), of k] by simp
  then show ?thesis
    using a set_counter_set[of c k "counter_get c k + n"]
    by (auto simp: positive_counts_def counter_add_def list_all_iff)
qed

lemma nonneg_counter_add:
  "nonneg_keys c \<Longrightarrow> 0 \<le> k \<Longrightarrow> nonneg_keys (counter_add c k n)"
  using set_counter_set[of c k "counter_get c k + n"]
  by (auto simp: nonneg_keys_def counter_add_def list_all_iff)

lemma positive_vote_bucket:
  "positive_counts c \<Longrightarrow> 0 < n \<Longrightarrow> positive_counts (vote_bucket chk n bucket c)"
  by (induction bucket arbitrary: c) (auto simp: Let_def positive_counter_add)

lemma nonneg_vote_bucket:
  "nonneg_keys c \<Longrightarrow> nonneg_keys (vote_bucket chk n bucket c)"
  by (induction bucket arbitrary: c) (auto simp: Let_def nonneg_counter_add)

lemma positive_vote_chunk:
  "positive_counts c \<Longrightarrow> positive_counts (vote_chunk M MASK c chk)"
proof -
  assume a: "positive_counts c"
  show ?thesis
  proof (cases "M (chk AND MASK)")
    case None
    then show ?thesis using a by (simp add: vote_chunk_def)
  next
    case (Some bucket)
    show ?thesis
    proof (cases bucket)
      case Nil
      then show ?thesis using a Some by (simp add: vote_chunk_def)
    next
      case (Cons s rest)
      then have "0 < int (length bucket)" by simp
      from positive_vote_bucket[OF a this] show ?thesis using Some by (simp add: vote_chunk_def)
    qed
  qed
qed

lemma nonneg_vote_chunk:
  "nonneg_keys c \<Longrightarrow> nonneg_keys (vote_chunk M MASK c chk)"
  by (simp add: vote_chunk_def nonneg_vote_bucket Let_def split: option.splits)

lemma positive_vote_all:
  "positive_counts c \<Longrightarrow> positive_counts (foldl (vote_chunk M MASK) c chunks)"
  by (induction chunks arbitrary: c) (simp_all add: positive_vote_chunk)

lemma nonneg_vote_all:
  "nonneg_keys c \<Longrightarrow> nonneg_keys (foldl (vote_chunk M MASK) c chunks)"
  by (induction chunks arbitrary: c) (simp_all add: nonneg_vote_chunk)

lemma map_of_positive:
  assumes "positive_counts c"
  shows "map_of c b = (if counter_get c b = 0 then None else Some (counter_get c b))"
proof (cases "map_of c b")
  case None
  then show ?thesis by (simp add: counter_get_def)
next
  case (Some v)
  then have "(b, v) \<in> set c" by (rule map_of_SomeD)
  then have "0 < v" using assms by (auto simp: positive_counts_def list_all_iff)
  then show ?thesis using Some by (simp add: counter_get_def)
qed

lemma sum_list_permuted:
  fixes f :: "int \<Rightarrow> int"
  assumes "mset xs = mset ys"
  shows "sum_list (map f xs) = sum_list (map f ys)"
proof -
  have "sum_mset (mset (map f xs)) = sum_mset (mset (map f ys))"
    using assms by (metis mset_map)
  then show ?thesis by (simp only: sum_mset_sum_list)
qed

lemma member_le_sum_list_int:
  fixes xs :: "int list"
  assumes "x \<in> set xs" "\<forall>y \<in> set xs. 0 \<le> y"
  shows "x \<le> sum_list xs"
  using assms
proof (induction xs)
  case Nil
  then show ?case by simp
next
  case (Cons a xs)
  have "0 \<le> sum_list xs" using Cons.prems(2) by (simp add: sum_list_nonneg)
  then show ?case using Cons by auto
qed

lemma index_loop_lookup:
  "index_loop MASK strs M lo =
     (let extra = filter (\<lambda>s. fst s AND MASK = lo) strs
      in case M lo of
           None \<Rightarrow> (if extra = [] then None else Some extra)
         | Some b \<Rightarrow> Some (b @ extra))"
proof (induction strs arbitrary: M)
  case Nil
  then show ?case by (simp split: option.splits)
next
  case (Cons s strs)
  show ?case
    by (simp add: Cons Let_def split: option.splits)
qed

lemma make_mask_eq: "0 \<le> n \<Longrightarrow> make_mask n = Inr (mask (nat n))"
  by (simp add: make_mask_def mask_eq_exp_minus_1)

lemma and_mask_aligned:
  fixes base off :: int
  assumes "base mod 2 ^ n = 0"
  shows "(base + off) AND mask n = off AND mask n"
proof -
  have "(base + off) mod 2 ^ n = off mod 2 ^ n"
    using assms by (metis add.commute mod_add_self2 mod_add_right_eq add.right_neutral mod_mod_trivial mod_add_eq)
  then show ?thesis by (simp add: take_bit_eq_mask[symmetric] take_bit_eq_mod)
qed

subsection \<open>The scan as a fold over the pointer words\<close>

lemma iter_cstrings_eq:
  "iter_cstrings st threshold =
   Inr (cstrings_of (content st) threshold, st\<lparr>position := length (content st)\<rparr>)"
  by (simp add: iter_cstrings_def iter_cstrings_raw_eq cstrings_of_def runs_of_def)

lemma scan_file_votes:
  assumes "iter_cstrings st 10 = Inr (strs, st1)"
    and "make_mask mask_bits = Inr MASK"
    and "chunkify (seek st1 0) pointer_size endian = Some (Inr words)"
  shows "scan_file st endian pointer_size mask_bits = Some (Inr (votes strs MASK words))"
  using assms by (simp add: scan_file_def votes_def Let_def)

lemma scan_file_result:
  assumes "scan_file st endian pointer_size mask_bits = Some (Inr c)"
  shows "\<exists>strs MASK words. c = votes strs MASK words"
  using assms
  by (auto simp: scan_file_def votes_def Let_def split: sum.splits option.splits prod.splits)

lemma scan_file_eq:
  assumes "0 < pointer_size" "0 \<le> mask_bits"
  shows "scan_file st endian pointer_size mask_bits =
         Some (Inr (votes (cstrings_of (content st) 10) (mask (nat mask_bits))
                      (pointer_words (content st) (nat pointer_size) endian)))"
proof -
  have "chunkify (seek (st\<lparr>position := length (content st)\<rparr>) 0) pointer_size endian =
        Some (Inr (pointer_words (content st) (nat pointer_size) endian))"
    using chunkify_windows[OF assms(1)] by (simp add: seek_def pointer_words_def)
  then show ?thesis
    using scan_file_votes[OF iter_cstrings_eq make_mask_eq[OF assms(2)]] by blast
qed

lemma votes_get:
  "counter_get (votes strs MASK words) b =
   (\<Sum>chk\<leftarrow>words. contribution (index_loop MASK strs Map.empty) MASK chk b)"
proof -
  have "counter_get [] b = 0" by (simp add: counter_get_def)
  then show ?thesis unfolding votes_def vote_all_get by simp
qed

lemma votes_positive: "positive_counts (votes strs MASK words)"
  unfolding votes_def by (rule positive_vote_all) (simp add: positive_counts_def)

lemma votes_nonneg: "nonneg_keys (votes strs MASK words)"
  unfolding votes_def by (rule nonneg_vote_all) (simp add: nonneg_keys_def)

lemma contribution_match:
  assumes "(off, str) \<in> set strs" "chk AND MASK = off AND MASK" "0 \<le> chk - off"
  shows "0 < contribution (index_loop MASK strs Map.empty) MASK chk (chk - off)"
proof -
  let ?bucket = "filter (\<lambda>s. fst s AND MASK = chk AND MASK) strs"
  have mem: "(off, str) \<in> set ?bucket" using assms by simp
  then have ne: "?bucket \<noteq> []" by (metis empty_iff empty_set)
  have look: "index_loop MASK strs Map.empty (chk AND MASK) = Some ?bucket"
    using ne by (simp add: index_loop_lookup Let_def)
  have "(off, str) \<in> set (filter (\<lambda>s. chk - fst s = chk - off \<and> 0 \<le> chk - off) ?bucket)"
    using mem assms(3) by simp
  then have "0 < length (filter (\<lambda>s. chk - fst s = chk - off \<and> 0 \<le> chk - off) ?bucket)"
    by (metis length_pos_if_in_set)
  moreover have "0 < length ?bucket" using ne by simp
  ultimately show ?thesis
    unfolding contribution_def look by simp
qed

lemma counter_key_iff:
  "positive_counts c \<Longrightarrow> k \<in> fst ` set c \<longleftrightarrow> 0 < counter_get c k"
proof -
  assume p: "positive_counts c"
  have "k \<in> fst ` set c \<longleftrightarrow> map_of c k \<noteq> None" by (simp add: map_of_eq_None_iff)
  also have "\<dots> \<longleftrightarrow> counter_get c k \<noteq> 0" using map_of_positive[OF p, of k] by simp
  also have "\<dots> \<longleftrightarrow> 0 < counter_get c k" using counter_get_nonneg[OF p, of k] by auto
  finally show ?thesis .
qed

subsection \<open>Totals and keys\<close>

lemma total_counter_set:
  "counter_total (counter_set c k v) = counter_total c - counter_get c k + v"
  by (induction c) (auto simp: counter_total_def counter_get_def)

lemma total_counter_add: "counter_total (counter_add c k n) = counter_total c + n"
  by (simp add: counter_add_def total_counter_set)

lemma total_vote_bucket:
  "counter_total (vote_bucket chk n bucket c) =
   counter_total c + n * int (length (filter (\<lambda>s. 0 \<le> chk - fst s) bucket))"
proof (induction bucket arbitrary: c)
  case Nil
  then show ?case by simp
next
  case (Cons s bucket)
  show ?case
  proof (cases "chk - fst s < 0")
    case True
    then show ?thesis using Cons[of c] by simp
  next
    case False
    then show ?thesis
      using Cons[of "counter_add c (chk - fst s) n"]
      by (simp add: total_counter_add Let_def algebra_simps)
  qed
qed

lemma keys_counter_set: "fst ` set (counter_set c k v) = insert k (fst ` set c)"
  by (induction c) auto

lemma keys_vote_bucket: "fst ` set c \<subseteq> fst ` set (vote_bucket chk n bucket c)"
proof (induction bucket arbitrary: c)
  case Nil
  then show ?case by simp
next
  case (Cons s bucket)
  have "fst ` set c \<subseteq> fst ` set (counter_add c (chk - fst s) n)"
    by (auto simp: counter_add_def keys_counter_set)
  then have "fst ` set c \<subseteq> fst ` set (vote_bucket chk n bucket (counter_add c (chk - fst s) n))"
    using Cons[of "counter_add c (chk - fst s) n"] by (rule subset_trans)
  then show ?case
    using Cons[of c] by (simp add: Let_def)
qed

lemma keys_vote_chunk: "fst ` set c \<subseteq> fst ` set (vote_chunk M MASK c chk)"
  using keys_vote_bucket by (simp add: vote_chunk_def Let_def split: option.splits)

subsection \<open>The character set\<close>

text \<open>
  \<^verbatim>\<open>string.printable\<close> is the printable ASCII characters together with the five
  control characters tab, line feed, vertical tab, form feed and carriage return.
\<close>

lemma charset_codes:
  "c \<in> set charset \<longleftrightarrow>
     printable_ascii c \<or> c \<in> {CHR 0x09, CHR 0x0A, CHR 0x0B, CHR 0x0C, CHR 0x0D}"
proof (cases c)
  case (Char b0 b1 b2 b3 b4 b5 b6 b7)
  show ?thesis
    unfolding Char charset_def printable_def digits_def ascii_letters_def ascii_lowercase_def
      ascii_uppercase_def punctuation_def whitespace_def printable_ascii_def
    by (cases b0; cases b1; cases b2; cases b3; cases b4; cases b5; cases b6; cases b7; simp)
qed

subsection \<open>The runs of an image\<close>

lemma runs_of_offsets:
  "runs_of data delimiter =
   map (\<lambda>(q, r). (int q, r)) (offsets 0 (length delimiter) (bytes_split delimiter data))"
  using raw_loop_offsets[of 0 delimiter "bytes_split delimiter data"] by (simp add: runs_of_def)

lemma runs_of_faithful:
  assumes "delimiter \<noteq> []" "s \<in> set (runs_of data delimiter)"
  shows "faithful data delimiter s"
proof -
  obtain q r where s: "s = (int q, r)"
    and mem: "(q, r) \<in> set (offsets 0 (length delimiter) (bytes_split delimiter data))"
    using assms(2) by (auto simp: runs_of_offsets)
  have j: "join delimiter (bytes_split delimiter data) = data"
    using assms(1) by (rule join_bytes_split)
  from offsets_faithful[OF mem] show ?thesis
    unfolding j s faithful_def by auto
qed

lemma runs_of_ascending:
  assumes "delimiter \<noteq> []"
  shows "sorted_wrt (<) (map fst (runs_of data delimiter))"
proof -
  have "0 < length delimiter" using assms by simp
  then have "sorted_wrt (<) (map fst (offsets 0 (length delimiter) (bytes_split delimiter data)))"
    by (rule offsets_ascending)
  then have "sorted_wrt (\<lambda>x y. int x < int y) (map fst (offsets 0 (length delimiter) (bytes_split delimiter data)))"
    by simp
  then have "sorted_wrt (<) (map int (map fst (offsets 0 (length delimiter) (bytes_split delimiter data))))"
    by (simp only: sorted_wrt_map)
  moreover have "map fst (runs_of data delimiter) =
                 map int (map fst (offsets 0 (length delimiter) (bytes_split delimiter data)))"
    by (simp add: runs_of_offsets case_prod_beta comp_def)
  ultimately show ?thesis by simp
qed

lemma iter_cstrings_raw_runs:
  "delimiter \<noteq> [] \<Longrightarrow>
   iter_cstrings_raw st delimiter =
   Inr (runs_of (content st) delimiter, st\<lparr>position := length (content st)\<rparr>)"
  by (simp add: iter_cstrings_raw_eq runs_of_def)

lemma cstrings_of_filter:
  "cstrings_of data threshold =
   filter (\<lambda>s. threshold \<le> int (length (snd s)) \<and> (\<forall>c \<in> set (snd s). c \<in> set charset))
     (runs_of data [CHR 0x00])"
  by (simp add: cstrings_of_def cstrings_loop_filter)

lemma cstrings_of_ascending: "sorted_wrt (<) (map fst (cstrings_of data threshold))"
proof -
  have "sorted_wrt (\<lambda>x y. fst x < fst y) (runs_of data [CHR 0x00])"
    using runs_of_ascending[of "[CHR 0x00]" data] by (simp add: sorted_wrt_map)
  then have "sorted_wrt (\<lambda>x y. fst x < fst y) (cstrings_of data threshold)"
    unfolding cstrings_of_filter by (rule sorted_wrt_filter)
  then show ?thesis by (simp add: sorted_wrt_map)
qed

lemma faithful_single_byte:
  assumes "faithful data [d] s" "fst s \<noteq> 0"
  shows "0 < fst s \<and> data ! (nat (fst s) - 1) = d"
proof -
  let ?k = "nat (fst s) - 1"
  have ge: "1 \<le> fst s" and t: "take 1 (drop ?k data) = [d]"
    using assms by (auto simp: faithful_def)
  have "fst s + int (length (snd s)) \<le> int (length data)"
    using assms(1) by (simp add: faithful_def)
  then have "?k < length data" using ge by linarith
  then have "drop ?k data = data ! ?k # drop (Suc ?k) data"
    by (simp add: Cons_nth_drop_Suc)
  then show ?thesis using t ge by simp
qed

lemma raw_loop_runs: "s \<in> set (raw_loop p delimiter rs) \<Longrightarrow> snd s \<in> set rs"
  by (induction rs arbitrary: p) auto

lemma no_charset_no_cstrings:
  assumes "\<forall>c \<in> set data. c \<notin> set charset" "0 < threshold"
  shows "cstrings_of data threshold = []"
proof -
  have "\<not> (threshold \<le> int (length (snd s)) \<and> (\<forall>c \<in> set (snd s). c \<in> set charset))"
    if "s \<in> set (runs_of data [CHR 0x00])" for s
  proof (cases "snd s")
    case Nil
    then show ?thesis using assms(2) by simp
  next
    case (Cons x xs)
    have "snd s \<in> set (bytes_split [CHR 0x00] data)"
      using that raw_loop_runs by (simp add: runs_of_def)
    then have "set (snd s) \<subseteq> set (join [CHR 0x00] (bytes_split [CHR 0x00] data))"
      by (rule set_run_subset)
    then have "set (snd s) \<subseteq> set data" by (simp add: join_bytes_split)
    then have "x \<in> set data" using Cons by auto
    then have "x \<notin> set charset" using assms(1) by blast
    then show ?thesis using Cons by auto
  qed
  then show ?thesis by (simp add: cstrings_of_filter filter_empty_conv)
qed

lemma votes_no_strings: "votes [] MASK words = []"
proof -
  have "foldl (vote_chunk Map.empty MASK) c words = c" for c
    by (induction words arbitrary: c) (simp_all add: vote_chunk_def)
  then show ?thesis by (simp add: votes_def)
qed

subsection \<open>Pointer sizes below one\<close>

text \<open>
  With a pointer size of 0 every read returns the empty string, which is never shorter
  than the pointer size: the loop of \<^verbatim>\<open>chunkify\<close> does not end. The command line
  admits the pointer sizes 4 and 8 only, and the properties below assume a positive one.
\<close>

lemma chunkify_returns_nonzero:
  assumes "chunkify st pointer_size endian = Some y"
  shows "pointer_size \<noteq> 0"
proof (rule chunkify.raw_induct[where P = "\<lambda>st pointer_size endian y. pointer_size \<noteq> 0", OF _ assms])
  fix f :: "stream \<Rightarrow> int \<Rightarrow> endian \<Rightarrow> (error + int list) option"
    and st pointer_size endian y
  assume IH: "\<And>st pointer_size endian y. f st pointer_size endian = Some y \<Longrightarrow> pointer_size \<noteq> 0"
  assume body: "(case read st pointer_size of
        Inl e \<Rightarrow> Some (Inl e)
      | Inr (d, st') \<Rightarrow>
          if int (length d) < pointer_size then Some (Inr [])
          else Option.bind (f st' pointer_size endian)
                 (\<lambda>r. Some (case r of Inl e \<Rightarrow> Inl e
                                    | Inr vals \<Rightarrow> Inr (from_bytes d endian # vals)))) = Some y"
  show "pointer_size \<noteq> 0"
  proof
    assume z: "pointer_size = 0"
    have "read st 0 = Inr ([], st\<lparr>position := position st\<rparr>)" by (simp add: read_def Let_def)
    then obtain r where "f (st\<lparr>position := position st\<rparr>) 0 endian = Some r"
      using body z by (auto split: Option.bind_splits)
    from IH[OF this] show False by simp
  qed
qed

lemma chunkify_zero_never_ends: "chunkify st 0 endian = None"
  using chunkify_returns_nonzero[of st 0 endian] by (cases "chunkify st 0 endian") auto

subsection \<open>Scans without votes\<close>

lemma vote_bucket_no_match:
  "\<forall>s \<in> set bucket. chk - fst s < 0 \<Longrightarrow> vote_bucket chk n bucket c = c"
  by (induction bucket arbitrary: c) auto

lemma votes_no_correlation:
  assumes "\<forall>chk \<in> set words. \<forall>s \<in> set strs. chk AND MASK \<noteq> fst s AND MASK \<or> chk - fst s < 0"
  shows "votes strs MASK words = []"
proof -
  let ?M = "index_loop MASK strs Map.empty"
  have step: "vote_chunk ?M MASK c chk = c" if "chk \<in> set words" for c chk
  proof (cases "?M (chk AND MASK)")
    case None
    then show ?thesis by (simp add: vote_chunk_def)
  next
    case (Some bucket)
    then have "bucket = filter (\<lambda>s. fst s AND MASK = chk AND MASK) strs"
      by (simp add: index_loop_lookup Let_def split: if_splits)
    then have "\<forall>s \<in> set bucket. chk - fst s < 0"
      using assms that by auto
    then show ?thesis using Some by (simp add: vote_chunk_def vote_bucket_no_match)
  qed
  have "set ws \<subseteq> set words \<Longrightarrow> foldl (vote_chunk ?M MASK) c ws = c" for ws c
    by (induction ws arbitrary: c) (simp_all add: step)
  then show ?thesis by (simp add: votes_def)
qed

subsection \<open>What the program prints\<close>

lemma best_result_nonempty: "c \<noteq> [] \<Longrightarrow> \<exists>b. best_result c = Inr b"
  by (cases c) (simp_all add: best_result_def most_common_def)

lemma main_of_scan:
  assumes "fs (arg_file a) = Some data"
    and "arg_pointer_size a \<in> {4, 8}"
    and "scan_file (open_image data) (arg_endian a) (arg_pointer_size a) (arg_mask a) = Some (Inr c)"
  shows "main fs a =
         (case best_result c of
            Inl e \<Rightarrow> Some (Inl e)
          | Inr b \<Rightarrow> Some (Inr (if verbose a then Rows (most_common 10 c) else Best b)))"
  using assms by (simp add: main_def open_image_def)

section \<open>Properties\<close>

text \<open>
  C3. On the 16-byte image (zero byte, HELLOWORLD from offset 1, zero byte, the 4-byte
  little-endian encoding of 0x1001), the scan with pointer size 4, little endian and
  mask 12 returns the vote table whose only entry is base 0x1000 with one vote; the
  best result is 0x1000, and that is what the program run on a file with this content
  prints.
\<close>

theorem hello_image_best_base:
  "length hello_image = 16
   \<and> scan_file \<lparr>content = hello_image, position = 0\<rparr> Little 4 12 = Some (Inr [(0x1000, 1)])
   \<and> best_result [(0x1000, 1)] = Inr 0x1000
   \<and> main [''image.bin'' \<mapsto> hello_image]
        \<lparr>arg_file = ''image.bin'', arg_endian = Little, arg_pointer_size = 4,
         arg_mask = 12, verbose = False\<rparr> = Some (Inr (Best 0x1000))"
  by code_simp

text \<open>
  C1, as the code has it. Let an image contain a pointer word (one of the values that
  \<^verbatim>\<open>chunkify\<close> yields for the pointer size and endianness of the scan) equal to
  \<open>base + off\<close>, where \<open>off\<close> is the offset of a candidate string of the same image
  and \<open>base\<close> is not negative. If \<open>base\<close> is a multiple of \<open>2 ^ mask\<close>, so that the
  masked low bits of the pointer are those of the string's offset, then the scan returns
  a vote table in which \<open>base\<close> is a key with a count above zero.
\<close>

theorem aligned_base_gets_votes:
  assumes "iter_cstrings (open_image data) 10 = Inr (strs, st1)"
    and "(off, str) \<in> set strs"
    and "chunkify (open_image data) pointer_size endian = Some (Inr words)"
    and "base + off \<in> set words"
    and "0 \<le> base"
    and "0 \<le> mask_bits"
    and "base mod 2 ^ nat mask_bits = 0"
  shows "\<exists>c. scan_file (open_image data) endian pointer_size mask_bits = Some (Inr c)
             \<and> base \<in> fst ` set c \<and> 0 < counter_get c base"
proof -
  let ?MASK = "mask (nat mask_bits) :: int"
  let ?M = "index_loop ?MASK strs Map.empty"
  have st1: "st1 = (open_image data)\<lparr>position := length data\<rparr>"
    using assms(1) by (simp add: iter_cstrings_eq open_image_def)
  then have "seek st1 0 = open_image data" by (simp add: seek_def open_image_def)
  then have scan: "scan_file (open_image data) endian pointer_size mask_bits =
                   Some (Inr (votes strs ?MASK words))"
    using scan_file_votes[OF assms(1) make_mask_eq[OF assms(6)]] assms(3) by simp
  have "(base + off) AND ?MASK = off AND ?MASK"
    using assms(7) by (rule and_mask_aligned)
  then have "0 < contribution ?M ?MASK (base + off) (base + off - off)"
    using contribution_match[OF assms(2), of "base + off" ?MASK] assms(5) by simp
  then have pos: "0 < contribution ?M ?MASK (base + off) base" by simp
  have "contribution ?M ?MASK (base + off) base \<le> (\<Sum>chk\<leftarrow>words. contribution ?M ?MASK chk base)"
    by (rule member_le_sum_list_int) (use assms(4) contribution_nonneg in auto)
  then have "0 < counter_get (votes strs ?MASK words) base"
    using pos by (simp add: votes_get)
  then show ?thesis
    using scan counter_key_iff[OF votes_positive] by simp
qed

theorem aligned_base_gets_votes_witness:
  "\<exists>c. scan_file (open_image hello_image) Little 4 12 = Some (Inr c)
       \<and> 0x1000 \<in> fst ` set c \<and> 0 < counter_get c 0x1000"
proof -
  have 1: "iter_cstrings (open_image hello_image) 10 =
           Inr ([(1, ''HELLOWORLD'')], \<lparr>content = hello_image, position = 16\<rparr>)"
    by code_simp
  have 2: "(1, ''HELLOWORLD'') \<in> set [(1 :: int, ''HELLOWORLD'')]" by simp
  have 3: "chunkify (open_image hello_image) 4 Little =
           Some (Inr [0x4C454800, 0x4F574F4C, 0x444C52, 0x1001])"
    by code_simp
  have 4: "0x1000 + 1 \<in> set [0x4C454800, 0x4F574F4C, 0x444C52, 0x1001 :: int]" by simp
  have 5: "(0x1000 :: int) mod 2 ^ nat 12 = 0" by simp
  show ?thesis
    using aligned_base_gets_votes[OF 1 2 3 4 _ _ 5] by simp
qed

text \<open>
  C1 as stated fails for a base that is not a multiple of \<open>2 ^ mask\<close>: the image holds
  the candidate string at offset 1 and the pointer word \<open>0x1800 + 1\<close>, and the scan
  with mask 12 returns the empty vote table, since the low bits \<open>0x801\<close> of the pointer
  select no bucket.
\<close>

theorem unaligned_base_gets_no_vote:
  "iter_cstrings (open_image unaligned_image) 10 =
     Inr ([(1, ''HELLOWORLD'')], \<lparr>content = unaligned_image, position = 16\<rparr>)
   \<and> chunkify (open_image unaligned_image) 4 Little =
       Some (Inr [0x4C454800, 0x4F574F4C, 0x444C52, 0x1800 + 1])
   \<and> scan_file (open_image unaligned_image) Little 4 12 = Some (Inr [])"
  by code_simp

text \<open>
  C2, as the code has it. A (pointer, string) pair whose base is not negative adds the
  size of the selected bucket to the count of its base, not 1: processing the pointer
  word \<open>chk\<close> adds to the count of every base \<open>b\<close> the bucket size \<open>k\<close> once for each
  string of the bucket with \<open>chk - offset = b\<close> and \<open>0 \<le> b\<close>. No count decreases, and
  the total of the table grows by \<open>k\<close> times the number of strings of the bucket whose base
  is not negative, that is by \<open>k * k\<close> when all of them are.
\<close>

theorem vote_chunk_adds_bucket_size:
  "counter_get (vote_chunk M MASK c chk) b = counter_get c b + contribution M MASK chk b
   \<and> counter_get c b \<le> counter_get (vote_chunk M MASK c chk) b
   \<and> counter_total (vote_chunk M MASK c chk) =
       counter_total c + (case M (chk AND MASK) of
                    None \<Rightarrow> 0
                  | Some bucket \<Rightarrow>
                      int (length bucket) * int (length (filter (\<lambda>s. 0 \<le> chk - fst s) bucket)))"
proof -
  have 1: "counter_get (vote_chunk M MASK c chk) b = counter_get c b + contribution M MASK chk b"
    by (rule vote_chunk_get)
  have 2: "counter_get c b \<le> counter_get (vote_chunk M MASK c chk) b"
    using contribution_nonneg[of M MASK chk b] by (simp add: 1)
  have 3: "counter_total (vote_chunk M MASK c chk) =
       counter_total c + (case M (chk AND MASK) of
                    None \<Rightarrow> 0
                  | Some bucket \<Rightarrow>
                      int (length bucket) * int (length (filter (\<lambda>s. 0 \<le> chk - fst s) bucket)))"
    by (simp add: vote_chunk_def total_vote_bucket Let_def split: option.splits)
  show ?thesis using 1 2 3 by blast
qed

theorem vote_chunk_adds_bucket_size_witness:
  "counter_get (vote_chunk [0 \<mapsto> [(0, ''a''), (16, ''b'')]] 15 [] 0x100) 0x100 = 2
   \<and> counter_total (vote_chunk [0 \<mapsto> [(0, ''a''), (16, ''b'')]] 15 [] 0x100) = 4"
proof -
  have c: "contribution [0 \<mapsto> [(0, ''a''), (16, ''b'')]] 15 0x100 0x100 = 2"
    by (simp add: contribution_def)
  have g: "counter_get [] 0x100 = 0" "counter_total [] = 0" by (simp_all add: counter_get_def counter_total_def)
  show ?thesis
    using vote_chunk_adds_bucket_size[of "[0 \<mapsto> [(0, ''a''), (16, ''b'')]]" 15 "[]" "0x100" "0x100"]
    by (simp add: c g)
qed

text \<open>
  C2 as stated fails when a bucket holds two strings: the image has candidate strings
  at the offsets 0 and 16, which share bucket 0 under a mask of 4 bits, and the single
  matching pointer word \<open>0x100\<close>. Exactly one (pointer, string) pair has the base
  \<open>0x100\<close>, yet its count is 2, and the pointer adds 4 votes in total rather than 2.
\<close>

theorem shared_bucket_votes_twice:
  "iter_cstrings (open_image bucket_image) 10 =
     Inr ([(0, ''AAAAAAAAAAAAAAA''), (16, ''BBBBBBBBBBBBBBB'')],
          \<lparr>content = bucket_image, position = 36\<rparr>)
   \<and> chunkify (open_image bucket_image) 4 Little =
       Some (Inr [0x41414141, 0x41414141, 0x41414141, 0x414141,
                  0x42424242, 0x42424242, 0x42424242, 0x424242, 0x100])
   \<and> pair_count [(0, ''AAAAAAAAAAAAAAA''), (16, ''BBBBBBBBBBBBBBB'')] 15
        [0x41414141, 0x41414141, 0x41414141, 0x414141,
         0x42424242, 0x42424242, 0x42424242, 0x424242, 0x100] 0x100 = 1
   \<and> scan_file (open_image bucket_image) Little 4 4 = Some (Inr [(0x100, 2), (0xF0, 2)])
   \<and> counter_get [(0x100, 2), (0xF0, 2)] 0x100 = 2
   \<and> counter_total [(0x100, 2), (0xF0, 2)] = 4"
  by code_simp

text \<open>
  C7. Every key of the vote table that the scan returns is a non-negative integer (and
  every stored count is positive); a (pointer, string) pair whose difference
  \<open>chk - offset\<close> is negative is skipped by the voting loop and leaves the table as
  it is.
\<close>

theorem vote_table_keys_nonnegative:
  assumes "scan_file st endian pointer_size mask_bits = Some (Inr c)"
  shows "(\<forall>p \<in> set c. 0 \<le> fst p \<and> 0 < snd p)
         \<and> (chk - fst s < 0 \<longrightarrow> vote_bucket chk n (s # rest) c' = vote_bucket chk n rest c')"
proof -
  obtain strs MASK words where c: "c = votes strs MASK words"
    using scan_file_result[OF assms] by blast
  have "nonneg_keys c" "positive_counts c"
    unfolding c by (rule votes_nonneg, rule votes_positive)
  then show ?thesis by (simp add: nonneg_keys_def positive_counts_def list_all_iff)
qed

theorem vote_table_keys_nonnegative_witness:
  "scan_file (open_image hello_image) Little 4 12 = Some (Inr [(0x1000, 1)])
   \<and> list_all (\<lambda>p. 0 \<le> fst p \<and> 0 < snd p) [(0x1000 :: int, 1 :: int)]
   \<and> vote_bucket 0 1 [(1, ''HELLOWORLD'')] [] = vote_bucket 0 1 [] []"
proof -
  have s: "scan_file (open_image hello_image) Little 4 12 = Some (Inr [(0x1000, 1)])"
    by code_simp
  show ?thesis
    using vote_table_keys_nonnegative[OF s, of 0 "(1, ''HELLOWORLD'')" 1 "[]" "[]"] s
    by simp
qed

text \<open>
  C8. The vote table is a pure accumulation: the scan returns the votes of the pointer
  words that \<^verbatim>\<open>chunkify\<close> yields, and processing any permutation of these words
  gives the same mapping from bases to counts. A voting step never lowers a count and
  never removes a key.
\<close>

theorem vote_table_order_independent:
  assumes "iter_cstrings st 10 = Inr (strs, st1)"
    and "make_mask mask_bits = Inr MASK"
    and "chunkify (seek st1 0) pointer_size endian = Some (Inr words)"
    and "mset words' = mset words"
  shows "scan_file st endian pointer_size mask_bits = Some (Inr (votes strs MASK words))
         \<and> map_of (votes strs MASK words') = map_of (votes strs MASK words)
         \<and> counter_get c b \<le> counter_get (vote_chunk M MASK' c chk) b
         \<and> fst ` set c \<subseteq> fst ` set (vote_chunk M MASK' c chk)"
proof -
  have 1: "scan_file st endian pointer_size mask_bits = Some (Inr (votes strs MASK words))"
    using assms(1-3) by (rule scan_file_votes)
  have "counter_get (votes strs MASK words') k = counter_get (votes strs MASK words) k" for k
    unfolding votes_get using assms(4) by (rule sum_list_permuted)
  then have 2: "map_of (votes strs MASK words') = map_of (votes strs MASK words)"
    by (simp add: fun_eq_iff map_of_positive[OF votes_positive])
  have 3: "counter_get c b \<le> counter_get (vote_chunk M MASK' c chk) b"
    using contribution_nonneg[of M MASK' chk b] by (simp add: vote_chunk_get)
  show ?thesis using 1 2 3 keys_vote_chunk by blast
qed

theorem vote_table_order_independent_witness:
  "scan_file (open_image bucket_image) Little 4 4 =
     Some (Inr (votes [(0, ''AAAAAAAAAAAAAAA''), (16, ''BBBBBBBBBBBBBBB'')] 15
                  [0x41414141, 0x41414141, 0x41414141, 0x414141,
                   0x42424242, 0x42424242, 0x42424242, 0x424242, 0x100]))
   \<and> map_of (votes [(0, ''AAAAAAAAAAAAAAA''), (16, ''BBBBBBBBBBBBBBB'')] 15
               [0x100, 0x41414141, 0x41414141, 0x41414141, 0x414141,
                0x42424242, 0x42424242, 0x42424242, 0x424242])
     = map_of (votes [(0, ''AAAAAAAAAAAAAAA''), (16, ''BBBBBBBBBBBBBBB'')] 15
               [0x41414141, 0x41414141, 0x41414141, 0x414141,
                0x42424242, 0x42424242, 0x42424242, 0x424242, 0x100])"
proof -
  have 1: "iter_cstrings (open_image bucket_image) 10 =
     Inr ([(0, ''AAAAAAAAAAAAAAA''), (16, ''BBBBBBBBBBBBBBB'')],
          \<lparr>content = bucket_image, position = 36\<rparr>)"
    by code_simp
  have 2: "make_mask 4 = Inr 15" by code_simp
  have 3: "chunkify (seek \<lparr>content = bucket_image, position = 36\<rparr> 0) 4 Little =
       Some (Inr [0x41414141, 0x41414141, 0x41414141, 0x414141,
                  0x42424242, 0x42424242, 0x42424242, 0x424242, 0x100])"
    by code_simp
  have 4: "mset [0x100, 0x41414141, 0x41414141, 0x41414141, 0x414141,
                0x42424242, 0x42424242, 0x42424242, 0x424242 :: int]
         = mset [0x41414141, 0x41414141, 0x41414141, 0x414141,
                0x42424242, 0x42424242, 0x42424242, 0x424242, 0x100]"
    by simp
  show ?thesis
    using vote_table_order_independent[OF 1 2 3 4] by simp
qed

text \<open>
  C6. For every image of length \<open>L\<close> and every positive pointer size, in particular 4
  and 8, \<^verbatim>\<open>chunkify\<close> on the stream at offset 0 ends and yields exactly
  \<open>L div pointer_size\<close> values, in ascending window order: the \<open>i\<close>-th value is the
  integer decoded with the given endianness from the window of the image that starts at
  \<open>i * pointer_size\<close> and has \<open>pointer_size\<close> bytes. A shorter rest at the end yields
  nothing. Every decoded value is unsigned: at least 0 and below \<open>256 ^ length\<close>.
\<close>

theorem chunkify_yields_windows:
  assumes "0 < pointer_size"
  shows "chunkify (open_image data) pointer_size endian =
         Some (Inr (map (\<lambda>i. from_bytes (take (nat pointer_size) (drop (i * nat pointer_size) data)) endian)
                      [0..<length data div nat pointer_size]))
         \<and> 0 \<le> from_bytes d endian \<and> from_bytes d endian < 256 ^ length d"
proof -
  have n: "0 < nat pointer_size" using assms by simp
  have "chunkify (open_image data) pointer_size endian =
        Some (Inr (map (\<lambda>w. from_bytes w endian) (windows (nat pointer_size) data)))"
    using chunkify_windows[OF assms, of "open_image data" endian] by (simp add: open_image_def)
  then show ?thesis
    using from_bytes_bounds[of d endian] by (simp add: windows_nth[OF n] comp_def)
qed

theorem chunkify_yields_windows_witness:
  "chunkify (open_image hello_image) 4 Little =
     Some (Inr (map (\<lambda>i. from_bytes (take (nat 4) (drop (i * nat 4) hello_image)) Little)
                  [0..<length hello_image div nat 4]))
   \<and> chunkify (open_image hello_image) 4 Little =
       Some (Inr [0x4C454800, 0x4F574F4C, 0x444C52, 0x1001])
   \<and> chunkify (open_image hello_image) 8 Big = Some (Inr [0x0048454C4C4F574F, 0x524C440001100000])
   \<and> chunkify (open_image (take 15 hello_image)) 4 Little =
       Some (Inr [0x4C454800, 0x4F574F4C, 0x444C52])"
proof -
  have 1: "chunkify (open_image hello_image) 4 Little =
       Some (Inr [0x4C454800, 0x4F574F4C, 0x444C52, 0x1001])"
    by code_simp
  have 2: "chunkify (open_image hello_image) 8 Big = Some (Inr [0x0048454C4C4F574F, 0x524C440001100000])"
    by code_simp
  have 3: "chunkify (open_image (take 15 hello_image)) 4 Little =
       Some (Inr [0x4C454800, 0x4F574F4C, 0x444C52])"
    by code_simp
  have "(0::int) < 4" by simp
  from chunkify_yields_windows[OF this, of hello_image Little] 1 2 3
  show ?thesis by blast
qed

text \<open>
  C10. Every string that \<^verbatim>\<open>iter_cstrings\<close> yields is faithful to the image: its
  bytes are the bytes of the image from its offset on, offset plus length does not exceed
  the length of the image, and the offset is 0 or the position right after a zero byte;
  the offsets are strictly ascending. The same holds for all the runs that
  \<^verbatim>\<open>iter_cstrings_raw\<close> yields, for any non-empty delimiter.
\<close>

theorem candidate_strings_faithful:
  "(delimiter \<noteq> [] \<longrightarrow>
      (\<exists>runs st'. iter_cstrings_raw st delimiter = Inr (runs, st')
         \<and> list_all (faithful (content st) delimiter) runs
         \<and> sorted_wrt (<) (map fst runs)))
   \<and> (\<exists>strs st'. iter_cstrings st threshold = Inr (strs, st')
         \<and> list_all (faithful (content st) [CHR 0x00]) strs
         \<and> list_all (\<lambda>s. fst s = 0 \<or> (0 < fst s \<and> content st ! (nat (fst s) - 1) = CHR 0x00)) strs
         \<and> sorted_wrt (<) (map fst strs))"
proof -
  have a: "list_all (faithful (content st) delimiter) (runs_of (content st) delimiter)"
    if "delimiter \<noteq> []" for delimiter
    using runs_of_faithful[OF that] by (simp add: list_all_iff)
  have sub: "set (cstrings_of (content st) threshold) \<subseteq> set (runs_of (content st) [CHR 0x00])"
    by (auto simp: cstrings_of_filter)
  have b: "list_all (faithful (content st) [CHR 0x00]) (cstrings_of (content st) threshold)"
    using a[of "[CHR 0x00]"] sub by (auto simp: list_all_iff)
  have c: "list_all (\<lambda>s. fst s = 0 \<or> (0 < fst s \<and> content st ! (nat (fst s) - 1) = CHR 0x00))
             (cstrings_of (content st) threshold)"
    using b faithful_single_byte[of "content st" "CHR 0x00"] by (auto simp: list_all_iff)
  show ?thesis
    using a[of delimiter] b c runs_of_ascending[of delimiter "content st"]
      cstrings_of_ascending[of "content st" threshold]
    by (simp add: iter_cstrings_raw_runs iter_cstrings_eq)
qed

theorem candidate_strings_faithful_witness:
  "(\<exists>runs st'. iter_cstrings_raw (open_image hello_image) [CHR 0x00] = Inr (runs, st')
         \<and> list_all (faithful (content (open_image hello_image)) [CHR 0x00]) runs
         \<and> sorted_wrt (<) (map fst runs))
   \<and> (\<exists>strs st'. iter_cstrings (open_image hello_image) 10 = Inr (strs, st')
         \<and> list_all (faithful (content (open_image hello_image)) [CHR 0x00]) strs
         \<and> list_all (\<lambda>s. fst s = 0 \<or> (0 < fst s \<and> content (open_image hello_image) ! (nat (fst s) - 1) = CHR 0x00)) strs
         \<and> sorted_wrt (<) (map fst strs))
   \<and> iter_cstrings_raw (open_image hello_image) [CHR 0x00] =
       Inr ([(0, []), (1, ''HELLOWORLD''), (12, [CHR 0x01, CHR 0x10]), (15, []), (16, [])],
            \<lparr>content = hello_image, position = 16\<rparr>)
   \<and> iter_cstrings (open_image hello_image) 10 =
       Inr ([(1, ''HELLOWORLD'')], \<lparr>content = hello_image, position = 16\<rparr>)"
proof -
  have 1: "iter_cstrings_raw (open_image hello_image) [CHR 0x00] =
       Inr ([(0, []), (1, ''HELLOWORLD''), (12, [CHR 0x01, CHR 0x10]), (15, []), (16, [])],
            \<lparr>content = hello_image, position = 16\<rparr>)"
    by code_simp
  have 2: "iter_cstrings (open_image hello_image) 10 =
       Inr ([(1, ''HELLOWORLD'')], \<lparr>content = hello_image, position = 16\<rparr>)"
    by code_simp
  have 3: "[CHR 0x00] \<noteq> []" by simp
  from candidate_strings_faithful[of "[CHR 0x00]" "open_image hello_image" 10] 1 2 3
  show ?thesis by blast
qed

text \<open>
  C5, as the code has it. For every image and threshold, \<^verbatim>\<open>iter_cstrings\<close> yields,
  in order, exactly those runs between zero bytes (the delimiter is fixed) whose length
  is at least the threshold and whose bytes all belong to \<^verbatim>\<open>string.printable\<close>: the
  printable ASCII characters from space to tilde and the five control characters tab,
  line feed, vertical tab, form feed and carriage return.
\<close>

theorem iter_cstrings_keeps_printable_runs:
  "(\<exists>runs st'. iter_cstrings_raw st [CHR 0x00] = Inr (runs, st')
      \<and> iter_cstrings st threshold =
          Inr (filter (\<lambda>s. threshold \<le> int (length (snd s))
                            \<and> (\<forall>c \<in> set (snd s). c \<in> set charset)) runs, st'))
   \<and> (c \<in> set charset \<longleftrightarrow>
        printable_ascii c \<or> c \<in> {CHR 0x09, CHR 0x0A, CHR 0x0B, CHR 0x0C, CHR 0x0D})"
  using charset_codes[of c]
  by (simp add: iter_cstrings_raw_runs iter_cstrings_eq cstrings_of_filter)

theorem iter_cstrings_keeps_printable_runs_witness:
  "(\<exists>runs st'. iter_cstrings_raw (open_image hello_image) [CHR 0x00] = Inr (runs, st')
      \<and> iter_cstrings (open_image hello_image) 10 =
          Inr (filter (\<lambda>s. 10 \<le> int (length (snd s))
                            \<and> (\<forall>c \<in> set (snd s). c \<in> set charset)) runs, st'))
   \<and> CHR 0x0A \<in> set charset
   \<and> iter_cstrings (open_image hello_image) 10 =
       Inr ([(1, ''HELLOWORLD'')], \<lparr>content = hello_image, position = 16\<rparr>)
   \<and> iter_cstrings (open_image hello_image) 11 = Inr ([], \<lparr>content = hello_image, position = 16\<rparr>)"
proof -
  have 1: "iter_cstrings (open_image hello_image) 10 =
       Inr ([(1, ''HELLOWORLD'')], \<lparr>content = hello_image, position = 16\<rparr>)"
    by code_simp
  have 2: "iter_cstrings (open_image hello_image) 11 = Inr ([], \<lparr>content = hello_image, position = 16\<rparr>)"
    by code_simp
  from iter_cstrings_keeps_printable_runs[of "open_image hello_image" 10 "CHR 0x0A"] 1 2
  show ?thesis by simp
qed

text \<open>
  C5 as stated fails for a run with a control character that \<^verbatim>\<open>string.printable\<close>
  contains: the eleven bytes \<^verbatim>\<open>HELLOWORLD\<close> and a line feed are yielded as a candidate
  string, and the line feed is not a printable ASCII character.
\<close>

theorem newline_string_is_candidate:
  "iter_cstrings (open_image newline_string) 10 =
     Inr ([(0, newline_string)], \<lparr>content = newline_string, position = 11\<rparr>)
   \<and> CHR 0x0A \<in> set newline_string
   \<and> \<not> printable_ascii (CHR 0x0A)"
  by code_simp

text \<open>
  C4, as the code has it. Selecting the best base from the empty vote table raises
  \<^verbatim>\<open>IndexError\<close>: whenever the scan of the file returns the empty table, the program
  ends with that error and prints nothing, and whenever the table is not empty it prints.
  With a mask that is not negative, an image without candidate strings has no votes and
  ends so; in particular an image none of whose bytes belongs to
  \<^verbatim>\<open>string.printable\<close>, that is no printable ASCII character and none of tab, line
  feed, vertical tab, form feed and carriage return.
\<close>

theorem empty_vote_table_index_error:
  assumes "fs (arg_file a) = Some data"
    and "arg_pointer_size a \<in> {4, 8}"
  shows "best_result [] = Inl IndexError
         \<and> (scan_file (open_image data) (arg_endian a) (arg_pointer_size a) (arg_mask a) =
               Some (Inr [])
             \<longrightarrow> main fs a = Some (Inl IndexError))
         \<and> (\<forall>c. scan_file (open_image data) (arg_endian a) (arg_pointer_size a) (arg_mask a) =
                  Some (Inr c)
                \<longrightarrow> c \<noteq> [] \<longrightarrow> (\<exists>out. main fs a = Some (Inr out)))
         \<and> (\<forall>st'. 0 \<le> arg_mask a \<longrightarrow> iter_cstrings (open_image data) 10 = Inr ([], st')
                \<longrightarrow> scan_file (open_image data) (arg_endian a) (arg_pointer_size a) (arg_mask a) =
                      Some (Inr [])
                    \<and> main fs a = Some (Inl IndexError))
         \<and> (0 \<le> arg_mask a
             \<longrightarrow> (\<forall>c \<in> set data.
                    \<not> printable_ascii c
                    \<and> c \<notin> {CHR 0x09, CHR 0x0A, CHR 0x0B, CHR 0x0C, CHR 0x0D})
             \<longrightarrow> iter_cstrings (open_image data) 10 =
                   Inr ([], \<lparr>content = data, position = length data\<rparr>)
                 \<and> scan_file (open_image data) (arg_endian a) (arg_pointer_size a) (arg_mask a) =
                     Some (Inr [])
                 \<and> main fs a = Some (Inl IndexError))"
proof -
  let ?scan = "scan_file (open_image data) (arg_endian a) (arg_pointer_size a) (arg_mask a)"
  have b: "best_result [] = Inl IndexError"
    by (simp add: best_result_def most_common_def)
  have e: "main fs a = Some (Inl IndexError)" if "?scan = Some (Inr [])"
    using main_of_scan[of fs a data "[]", OF assms that] b by simp
  have n: "\<exists>out. main fs a = Some (Inr out)" if "?scan = Some (Inr c)" "c \<noteq> []" for c
    using main_of_scan[of fs a data c, OF assms that(1)] best_result_nonempty[OF that(2)] by auto
  have p: "0 < arg_pointer_size a" using assms(2) by auto
  have s: "?scan = Some (Inr [])" if "0 \<le> arg_mask a" "cstrings_of data 10 = []"
    using scan_file_eq[OF p that(1), of "open_image data" "arg_endian a"] that(2)
    by (simp add: open_image_def votes_no_strings)
  have i: "?scan = Some (Inr []) \<and> main fs a = Some (Inl IndexError)"
    if "0 \<le> arg_mask a" "iter_cstrings (open_image data) 10 = Inr ([], st')" for st'
  proof -
    have "cstrings_of data 10 = []"
      using that(2) by (simp add: iter_cstrings_eq open_image_def)
    then show ?thesis using s[OF that(1)] e by blast
  qed
  have u: "iter_cstrings (open_image data) 10 = Inr ([], \<lparr>content = data, position = length data\<rparr>)
           \<and> ?scan = Some (Inr []) \<and> main fs a = Some (Inl IndexError)"
    if "0 \<le> arg_mask a"
      and "\<forall>c \<in> set data. \<not> printable_ascii c
             \<and> c \<notin> {CHR 0x09, CHR 0x0A, CHR 0x0B, CHR 0x0C, CHR 0x0D}"
  proof -
    have "\<forall>c \<in> set data. c \<notin> set charset"
      using that(2) charset_codes by blast
    then have none: "cstrings_of data 10 = []"
      using no_charset_no_cstrings[of data 10] by simp
    then have "iter_cstrings (open_image data) 10 =
               Inr ([], \<lparr>content = data, position = length data\<rparr>)"
      by (simp add: iter_cstrings_eq open_image_def)
    then show ?thesis using s[OF that(1) none] e by blast
  qed
  show ?thesis using b e n i u by blast
qed

theorem empty_vote_table_index_error_witness:
  "best_result [] = Inl IndexError
   \<and> iter_cstrings (open_image [CHR 0x00, CHR 0x01, CHR 0xFF, CHR 0x7F]) 10 =
       Inr ([], \<lparr>content = [CHR 0x00, CHR 0x01, CHR 0xFF, CHR 0x7F], position = 4\<rparr>)
   \<and> scan_file (open_image [CHR 0x00, CHR 0x01, CHR 0xFF, CHR 0x7F]) Little 4 16 = Some (Inr [])
   \<and> main [''image.bin'' \<mapsto> [CHR 0x00, CHR 0x01, CHR 0xFF, CHR 0x7F]]
       \<lparr>arg_file = ''image.bin'', arg_endian = Little, arg_pointer_size = 4, arg_mask = 16,
        verbose = False\<rparr> = Some (Inl IndexError)
   \<and> (\<exists>out. main [''image.bin'' \<mapsto> hello_image]
       \<lparr>arg_file = ''image.bin'', arg_endian = Little, arg_pointer_size = 4, arg_mask = 12,
        verbose = False\<rparr> = Some (Inr out))"
proof -
  let ?d = "[CHR 0x00, CHR 0x01, CHR 0xFF, CHR 0x7F]"
  let ?a = "\<lparr>arg_file = ''image.bin'', arg_endian = Little, arg_pointer_size = 4, arg_mask = 16,
      verbose = False\<rparr>"
  let ?b = "\<lparr>arg_file = ''image.bin'', arg_endian = Little, arg_pointer_size = 4, arg_mask = 12,
      verbose = False\<rparr>"
  let ?fs = "[''image.bin'' \<mapsto> ?d]"
  let ?gs = "[''image.bin'' \<mapsto> hello_image]"
  have 1: "?fs (arg_file ?a) = Some ?d" by simp
  have 2: "arg_pointer_size ?a \<in> {4, 8}" by simp
  have 3: "0 \<le> arg_mask ?a" by simp
  have 4: "\<forall>c \<in> set ?d. \<not> printable_ascii c
             \<and> c \<notin> {CHR 0x09, CHR 0x0A, CHR 0x0B, CHR 0x0C, CHR 0x0D}"
    by (simp add: printable_ascii_def)
  have 5: "?gs (arg_file ?b) = Some hello_image" by simp
  have 6: "arg_pointer_size ?b \<in> {4, 8}" by simp
  have 7: "scan_file (open_image hello_image) (arg_endian ?b) (arg_pointer_size ?b) (arg_mask ?b)
           = Some (Inr [(0x1000, 1)])"
    by code_simp
  have 8: "[(0x1000 :: int, 1 :: int)] \<noteq> []" by simp
  have x: "\<exists>out. main ?gs ?b = Some (Inr out)"
    using empty_vote_table_index_error[of ?gs ?b hello_image, OF 5 6] 7 8 by blast
  have y: "best_result [] = Inl IndexError
     \<and> iter_cstrings (open_image ?d) 10 = Inr ([], \<lparr>content = ?d, position = length ?d\<rparr>)
     \<and> scan_file (open_image ?d) (arg_endian ?a) (arg_pointer_size ?a) (arg_mask ?a) = Some (Inr [])
     \<and> main ?fs ?a = Some (Inl IndexError)"
    using empty_vote_table_index_error[of ?fs ?a ?d, OF 1 2] 3 4 by blast
  show ?thesis using x y by simp
qed

text \<open>
  C4 as stated fails for an image of bytes that are not printable but belong to
  \<^verbatim>\<open>string.printable\<close>: twelve line feeds followed by four zero bytes are one
  candidate string at offset 0, the last pointer word is 0 and votes for the base 0, and
  the program run with its default mask of 16 bits prints that base. Twelve line feeds
  alone do the same with a mask of one bit.
\<close>

theorem line_feed_image_prints_base:
  "list_all (\<lambda>c. \<not> printable_ascii c) line_feed_image
   \<and> iter_cstrings (open_image line_feed_image) 10 =
       Inr ([(0, replicate 12 (CHR 0x0A))], \<lparr>content = line_feed_image, position = 16\<rparr>)
   \<and> scan_file (open_image line_feed_image) Little 4 16 = Some (Inr [(0, 1)])
   \<and> main [''image.bin'' \<mapsto> line_feed_image]
        \<lparr>arg_file = ''image.bin'', arg_endian = Little, arg_pointer_size = 4, arg_mask = 16,
         verbose = False\<rparr> = Some (Inr (Best 0))
   \<and> list_all (\<lambda>c. \<not> printable_ascii c) newline_image
   \<and> scan_file (open_image newline_image) Little 4 1 = Some (Inr [(0x0A0A0A0A, 3)])
   \<and> main [''image.bin'' \<mapsto> newline_image]
        \<lparr>arg_file = ''image.bin'', arg_endian = Little, arg_pointer_size = 4, arg_mask = 1,
         verbose = False\<rparr> = Some (Inr (Best 0x0A0A0A0A))"
  by code_simp

text \<open>
  C9. For every stream, threshold and endianness, every mask width that is not negative
  and every positive pointer size (4 and 8 among them), string extraction, chunking and
  the scan end and return a result, never an error. When no run qualifies, the sequence
  of candidate strings is empty; when no pointer word correlates with a candidate string
  (no equal masked bits, or a negative base), the scan returns the empty vote table.
\<close>

theorem scan_never_fails:
  assumes "0 < pointer_size" and "0 \<le> mask_bits"
  shows "(\<exists>c. scan_file st endian pointer_size mask_bits = Some (Inr c))
       \<and> (\<exists>strs st'. iter_cstrings st threshold = Inr (strs, st'))
       \<and> (\<exists>words. chunkify st pointer_size endian = Some (Inr words))
       \<and> (\<forall>runs st'. iter_cstrings_raw st [CHR 0x00] = Inr (runs, st') \<longrightarrow>
            (\<forall>s \<in> set runs. int (length (snd s)) < threshold \<or> (\<exists>c \<in> set (snd s). c \<notin> set charset)) \<longrightarrow>
            iter_cstrings st threshold = Inr ([], st'))
       \<and> (\<forall>strs st1 MASK words.
            iter_cstrings st 10 = Inr (strs, st1) \<longrightarrow>
            make_mask mask_bits = Inr MASK \<longrightarrow>
            chunkify (seek st1 0) pointer_size endian = Some (Inr words) \<longrightarrow>
            (\<forall>chk \<in> set words. \<forall>s \<in> set strs.
               chk AND MASK \<noteq> fst s AND MASK \<or> chk - fst s < 0) \<longrightarrow>
            scan_file st endian pointer_size mask_bits = Some (Inr []))"
proof -
  have 1: "\<exists>c. scan_file st endian pointer_size mask_bits = Some (Inr c)"
    using scan_file_eq[OF assms] by blast
  have 2: "\<exists>strs st'. iter_cstrings st threshold = Inr (strs, st')"
    using iter_cstrings_eq by blast
  have 3: "\<exists>words. chunkify st pointer_size endian = Some (Inr words)"
    using chunkify_windows[OF assms(1)] by blast
  have 4: "iter_cstrings st threshold = Inr ([], st')"
    if "iter_cstrings_raw st [CHR 0x00] = Inr (runs, st')"
      and "\<forall>s \<in> set runs. int (length (snd s)) < threshold \<or> (\<exists>c \<in> set (snd s). c \<notin> set charset)"
    for runs st'
  proof -
    have "cstrings_loop threshold runs = []"
      unfolding cstrings_loop_filter filter_empty_conv using that(2) by fastforce
    then show ?thesis using that(1) by (simp add: iter_cstrings_def)
  qed
  have 5: "scan_file st endian pointer_size mask_bits = Some (Inr [])"
    if "iter_cstrings st 10 = Inr (strs, st1)" "make_mask mask_bits = Inr MASK"
      "chunkify (seek st1 0) pointer_size endian = Some (Inr words)"
      "\<forall>chk \<in> set words. \<forall>s \<in> set strs. chk AND MASK \<noteq> fst s AND MASK \<or> chk - fst s < 0"
    for strs st1 MASK words
    using scan_file_votes[OF that(1-3)] votes_no_correlation[OF that(4)] by simp
  show ?thesis using 1 2 3 4 5 by blast
qed

theorem scan_never_fails_witness:
  "(\<exists>c. scan_file (open_image hello_image) Big 8 16 = Some (Inr c))
   \<and> (\<exists>strs st'. iter_cstrings (open_image hello_image) 11 = Inr (strs, st'))
   \<and> (\<exists>words. chunkify (open_image hello_image) 8 Big = Some (Inr words))
   \<and> iter_cstrings (open_image hello_image) 11 =
       Inr ([], \<lparr>content = hello_image, position = 16\<rparr>)
   \<and> scan_file (open_image hello_image) Big 8 16 = Some (Inr [])"
proof -
  let ?st = "open_image hello_image"
  let ?runs = "[(0, []), (1, ''HELLOWORLD''), (12, [CHR 0x01, CHR 0x10]), (15, []), (16, [])]
                 :: cstring list"
  let ?st' = "\<lparr>content = hello_image, position = 16\<rparr>"
  let ?words = "[0x0048454C4C4F574F, 0x524C440001100000] :: int list"
  have p: "(0::int) < 8" and m: "(0::int) \<le> 16" by simp_all
  note t = scan_never_fails[OF p m, of ?st Big 11]
  have r: "iter_cstrings_raw ?st [CHR 0x00] = Inr (?runs, ?st')" by code_simp
  have q: "\<forall>s \<in> set ?runs. int (length (snd s)) < 11 \<or> (\<exists>c \<in> set (snd s). c \<notin> set charset)"
    by simp
  have i: "iter_cstrings ?st 10 = Inr ([(1, ''HELLOWORLD'')], ?st')" by code_simp
  have k: "make_mask 16 = Inr 0xFFFF" by code_simp
  have c: "chunkify (seek ?st' 0) 8 Big = Some (Inr ?words)" by code_simp
  have n: "\<forall>chk \<in> set ?words. \<forall>s \<in> set [(1 :: int, ''HELLOWORLD'')].
             chk AND 0xFFFF \<noteq> fst s AND 0xFFFF \<or> chk - fst s < 0"
    by simp
  have e1: "iter_cstrings ?st 11 = Inr ([], ?st')"
    using t r q by blast
  have e2: "scan_file ?st Big 8 16 = Some (Inr [])"
    using t i k c n by blast
  show ?thesis using t e1 e2 by blast
qed

end
